theory Spec2Isabelle
  imports
    Complex_Main
    "HOL-Library.Word"
    "HOL-Library.Log_Nat"
    "HOL-Library.Signed_Division"
    "HOL-Library.Multiset"
begin

section \<open>Machine numbers used by pinglist\<close>

subsection \<open>Panics\<close>

text \<open>
  A Go panic is a value: every function of the model that can panic returns
  \<open>panic + 'a\<close>, with \<open>Inl\<close> for the panic.
\<close>

datatype panic = DivideByZero | IndexOutOfRange

subsection \<open>int and time.Duration: signed 64-bit integers\<close>

text \<open>
  Go's \<open>int\<close> is 64 bits wide on the 64-bit platforms, \<open>time.Duration\<close> is an
  int64 count of nanoseconds.  Both are words: \<open>+\<close> and \<open>-\<close> wrap around, \<open>sint\<close>
  reads the signed value, and a conversion between the two types changes nothing.
\<close>

type_synonym GoInt = "64 word"

type_synonym Duration = "64 word"

text \<open>Go's \<open>/\<close> and \<open>%\<close> on int64 truncate towards zero and wrap around.\<close>

definition i64_div :: "Duration \<Rightarrow> Duration \<Rightarrow> Duration" where
  "i64_div a b = word_of_int (sint a sdiv sint b)"

definition i64_rem :: "Duration \<Rightarrow> Duration \<Rightarrow> Duration" where
  "i64_rem a b = word_of_int (sint a smod sint b)"

subsection \<open>float64: IEEE 754 binary64, round to nearest even\<close>

text \<open>
  \<open>F64 neg q\<close> is the finite number with sign bit \<open>neg\<close> and magnitude \<open>q \<ge> 0\<close>
  (so both zeros exist), \<open>F64Inf neg\<close> an infinity, \<open>F64NaN\<close> a NaN.  Every
  operation computes the exact rational result and rounds it with \<open>f64_round\<close>.
\<close>

datatype float64 = F64 bool rat | F64Inf bool | F64NaN

definition pow2 :: "int \<Rightarrow> rat" where
  "pow2 k = 2 powi k"

text \<open>\<open>ilog2 q\<close> is the exponent \<open>e\<close> with \<open>2 ^ e \<le> q < 2 ^ (e + 1)\<close>, for \<open>q > 0\<close>.\<close>

definition ilog2 :: "rat \<Rightarrow> int" where
  "ilog2 q = (case quotient_of q of (p, d) \<Rightarrow>
     (let k = bitlen p - bitlen d in if pow2 k \<le> q then k else k - 1))"

definition round_half_even :: "rat \<Rightarrow> int" where
  "round_half_even x =
     (let f = \<lfloor>x\<rfloor>; d = x - of_int f
      in if d < 1 / 2 then f else if 1 / 2 < d then f + 1
         else if even f then f else f + 1)"

text \<open>
  Rounding a magnitude to 53 significant bits; the unit in the last place never
  goes below \<open>2 ^ - 1074\<close> (subnormals), and a result of \<open>2 ^ 1024\<close> or more
  overflows to infinity.
\<close>

definition f64_round :: "bool \<Rightarrow> rat \<Rightarrow> float64" where
  "f64_round neg q =
     (if q = 0 then F64 neg 0
      else let u = pow2 (max (ilog2 q - 52) (- 1074));
               r = of_int (round_half_even (q / u)) * u
           in if 2 ^ 1024 \<le> r then F64Inf neg else F64 neg r)"

text \<open>The conversion \<open>float64(i)\<close> of an integer.\<close>

definition f64_of_int :: "int \<Rightarrow> float64" where
  "f64_of_int i = f64_round (i < 0) (of_int \<bar>i\<bar>)"

fun f64_mul :: "float64 \<Rightarrow> float64 \<Rightarrow> float64" where
  "f64_mul F64NaN y = F64NaN"
| "f64_mul x F64NaN = F64NaN"
| "f64_mul (F64 s q) (F64 t r) = f64_round (s \<noteq> t) (q * r)"
| "f64_mul (F64 s q) (F64Inf t) = (if q = 0 then F64NaN else F64Inf (s \<noteq> t))"
| "f64_mul (F64Inf s) (F64 t r) = (if r = 0 then F64NaN else F64Inf (s \<noteq> t))"
| "f64_mul (F64Inf s) (F64Inf t) = F64Inf (s \<noteq> t)"

fun f64_div :: "float64 \<Rightarrow> float64 \<Rightarrow> float64" where
  "f64_div F64NaN y = F64NaN"
| "f64_div x F64NaN = F64NaN"
| "f64_div (F64 s q) (F64 t r) =
     (if r = 0 then (if q = 0 then F64NaN else F64Inf (s \<noteq> t))
      else f64_round (s \<noteq> t) (q / r))"
| "f64_div (F64 s q) (F64Inf t) = F64 (s \<noteq> t) 0"
| "f64_div (F64Inf s) (F64 t r) = F64Inf (s \<noteq> t)"
| "f64_div (F64Inf s) (F64Inf t) = F64NaN"

fun f64_add :: "float64 \<Rightarrow> float64 \<Rightarrow> float64" where
  "f64_add F64NaN y = F64NaN"
| "f64_add x F64NaN = F64NaN"
| "f64_add (F64 s q) (F64 t r) =
     (let x = (if s then - q else q) + (if t then - r else r)
      in if x = 0 then F64 (s \<and> t) 0 else f64_round (x < 0) \<bar>x\<bar>)"
| "f64_add (F64 s q) (F64Inf t) = F64Inf t"
| "f64_add (F64Inf s) (F64 t r) = F64Inf s"
| "f64_add (F64Inf s) (F64Inf t) = (if s = t then F64Inf s else F64NaN)"

text \<open>The integer square root, two bits of the argument at a time.\<close>

fun isqrt :: "nat \<Rightarrow> nat" where
  "isqrt n =
     (if n = 0 then 0
      else let r = 2 * isqrt (n div 4)
           in if (r + 1) * (r + 1) \<le> n then r + 1 else r)"

declare isqrt.simps [simp del]

text \<open>
  \<open>sqrt_sticky q\<close> is a rational that rounds as the square root of \<open>q > 0\<close> does:
  the first 54 bits of the root, and one more bit that is set when the root has
  further non-zero bits.
\<close>

definition sqrt_sticky :: "rat \<Rightarrow> rat" where
  "sqrt_sticky q =
     (let k = ilog2 q div 2 - 53;
          x = q / pow2 (2 * k);
          n = isqrt (nat \<lfloor>x\<rfloor>)
      in (of_nat (2 * n) + (if of_nat (n * n) = x then 0 else 1)) * pow2 (k - 1))"

text \<open>\<open>math.Sqrt\<close>: correctly rounded; NaN below zero, and \<open>Sqrt(-0) = -0\<close>.\<close>

fun f64_sqrt :: "float64 \<Rightarrow> float64" where
  "f64_sqrt F64NaN = F64NaN"
| "f64_sqrt (F64Inf s) = (if s then F64NaN else F64Inf False)"
| "f64_sqrt (F64 s q) =
     (if q = 0 then F64 s 0 else if s then F64NaN
      else f64_round False (sqrt_sticky q))"

text \<open>
  The conversion \<open>time.Duration(x)\<close> of a float64 truncates towards zero.  For a
  NaN, an infinity or a value outside int64 Go leaves the result to the
  implementation; amd64 gives the least int64.
\<close>

definition f64_to_i64 :: "float64 \<Rightarrow> Duration" where
  "f64_to_i64 x =
     (case x of
        F64 s q \<Rightarrow>
          (let t = (if s then - \<lfloor>q\<rfloor> else \<lfloor>q\<rfloor>)
           in if - (2 ^ 63) \<le> t \<and> t < 2 ^ 63 then word_of_int t else - (2 ^ 63))
      | F64Inf s \<Rightarrow> - (2 ^ 63)
      | F64NaN \<Rightarrow> - (2 ^ 63))"

section \<open>Target statistics (pingStats)\<close>

text \<open>
  The probing library's packet; \<open>Rtt\<close> is the only field pinglist reads.
\<close>

record Packet =
  Rtt :: Duration

text \<open>
  The struct \<open>pingStats\<close>.  The mutex has no field: every method holds it from
  entry to exit, so a method call is one atomic step on the record.
\<close>

record pingStats =
  Name :: string
  Addr :: string
  pktsSent :: GoInt
  pktsRecv :: GoInt
  rttAvg :: Duration
  rttVar :: float64
  rttStdDev :: Duration

definition newPingStats :: "string \<Rightarrow> string \<Rightarrow> pingStats" where
  "newPingStats name addr =
     \<lparr>Name = name, Addr = addr, pktsSent = 0, pktsRecv = 0, rttAvg = 0,
      rttVar = F64 False 0, rttStdDev = 0\<rparr>"

definition PktLoss :: "pingStats \<Rightarrow> float64" where
  "PktLoss s =
     f64_mul
       (f64_div (f64_of_int (sint (pktsSent s - pktsRecv s))) (f64_of_int (sint (pktsSent s))))
       (f64_of_int 100)"

definition OnPktSend :: "Packet \<Rightarrow> pingStats \<Rightarrow> pingStats" where
  "OnPktSend pkt s = s\<lparr>pktsSent := pktsSent s + 1\<rparr>"

text \<open>
  Welford's update.  The division of the delta by the receive count is int64
  division, which panics on a zero divisor.
\<close>

definition OnPktRecv :: "Packet \<Rightarrow> pingStats \<Rightarrow> panic + pingStats" where
  "OnPktRecv pkt s =
     (let s1 = s\<lparr>pktsRecv := pktsRecv s + 1\<rparr>
      in if pktsRecv s1 = 1 then Inr (s1\<lparr>rttAvg := Rtt pkt, rttVar := F64 False 0\<rparr>)
         else
           let delta = Rtt pkt - rttAvg s1
           in if pktsRecv s1 = 0 then Inl DivideByZero
              else
                let avg = rttAvg s1 + i64_div delta (pktsRecv s1);
                    var = f64_add (rttVar s1)
                            (f64_mul (f64_of_int (sint delta))
                               (f64_of_int (sint (Rtt pkt - avg))));
                    sd = f64_to_i64
                           (f64_sqrt (f64_div var (f64_of_int (sint (pktsRecv s1 - 1)))))
                in Inr (s1\<lparr>rttAvg := avg, rttVar := var, rttStdDev := sd\<rparr>))"

definition RttAvg :: "pingStats \<Rightarrow> Duration" where
  "RttAvg s = rttAvg s"

definition RttStdDev :: "pingStats \<Rightarrow> Duration" where
  "RttStdDev s = rttStdDev s"

text \<open>
  The prober's callbacks on one target, in the order in which they happen.
\<close>

datatype event = Send Packet | Recv Packet

fun apply_event :: "event \<Rightarrow> pingStats \<Rightarrow> panic + pingStats" where
  "apply_event (Send pkt) s = Inr (OnPktSend pkt s)"
| "apply_event (Recv pkt) s = OnPktRecv pkt s"

fun run :: "event list \<Rightarrow> pingStats \<Rightarrow> panic + pingStats" where
  "run [] s = Inr s"
| "run (e # es) s = (case apply_event e s of Inl p \<Rightarrow> Inl p | Inr s' \<Rightarrow> run es s')"

subsection \<open>Facts about the float64 model\<close>

lemma pow2_pos [simp]: "0 < pow2 k"
  by (simp add: pow2_def)

lemma pow2_nonzero [simp]: "pow2 k \<noteq> 0"
  by (simp add: pow2_def)

lemma pow2_add: "pow2 (a + b) = pow2 a * pow2 b"
  by (simp add: pow2_def power_int_add)

lemma pow2_mono: "a \<le> b \<Longrightarrow> pow2 a \<le> pow2 b"
  by (simp add: pow2_def power_int_increasing)

lemma pow2_strict_mono: "a < b \<Longrightarrow> pow2 a < pow2 b"
  by (simp add: pow2_def power_int_strict_increasing)

lemma pow2_nat: "0 \<le> k \<Longrightarrow> pow2 k = 2 ^ nat k"
  by (simp add: pow2_def power_int_nonneg_exp)

lemma ilog2_bounds:
  assumes "0 < q"
  shows "pow2 (ilog2 q) \<le> q \<and> q < pow2 (ilog2 q + 1)"
proof -
  obtain p d where pd: "quotient_of q = (p, d)" by (cases "quotient_of q")
  have d: "0 < d" using pd quotient_of_denom_pos by blast
  have q: "q = of_int p / of_int d" using pd quotient_of_div by blast
  have p: "0 < p" using assms d q by (simp add: zero_less_divide_iff)
  define k where "k = bitlen p - bitlen d"
  have bp: "2 ^ nat (bitlen p - 1) \<le> p" "p < 2 ^ nat (bitlen p)"
    using bitlen_bounds [OF p] by auto
  have bd: "2 ^ nat (bitlen d - 1) \<le> d" "d < 2 ^ nat (bitlen d)"
    using bitlen_bounds [OF d] by auto
  have bp0: "0 < bitlen p" "0 < bitlen d"
    using p d bp(2) bd(2) by (cases "0 < bitlen p"; cases "0 < bitlen d"; simp)+
  have pr: "pow2 (bitlen p - 1) \<le> of_int p" "(of_int p :: rat) < pow2 (bitlen p)"
    using bp bp0 by (simp_all add: pow2_nat)
  have dr: "pow2 (bitlen d - 1) \<le> of_int d" "(of_int d :: rat) < pow2 (bitlen d)"
    using bd bp0 by (simp_all add: pow2_nat)
  have up: "q < pow2 (k + 1)"
  proof -
    have "of_int p < pow2 (k + 1) * pow2 (bitlen d - 1)"
      using pr(2) by (simp add: k_def flip: pow2_add)
    also have "\<dots> \<le> pow2 (k + 1) * of_int d"
      using dr(1) by (simp add: mult_left_mono less_imp_le)
    finally show ?thesis using d by (simp add: q pos_divide_less_eq)
  qed
  have lo: "pow2 (k - 1) \<le> q"
  proof -
    have "pow2 (k - 1) * of_int d \<le> pow2 (k - 1) * pow2 (bitlen d)"
      using dr(2) by (simp add: mult_left_mono less_imp_le)
    also have "\<dots> = pow2 (bitlen p - 1)"
      by (simp add: k_def flip: pow2_add)
    also have "\<dots> \<le> of_int p" by (rule pr(1))
    finally show ?thesis using d by (simp add: q pos_le_divide_eq)
  qed
  show ?thesis
    using up lo by (simp add: ilog2_def pd Let_def flip: k_def)
qed

lemma ilog2_eqI:
  assumes "pow2 e \<le> q" "q < pow2 (e + 1)"
  shows "ilog2 q = e"
proof -
  have q: "0 < q" using assms(1) pow2_pos [of e] by linarith
  note b = ilog2_bounds [OF q]
  have "\<not> ilog2 q < e"
  proof
    assume "ilog2 q < e"
    then have "pow2 (ilog2 q + 1) \<le> pow2 e" by (simp add: pow2_mono)
    with b assms show False by linarith
  qed
  moreover have "\<not> e < ilog2 q"
  proof
    assume "e < ilog2 q"
    then have "pow2 (e + 1) \<le> pow2 (ilog2 q)" by (simp add: pow2_mono)
    with b assms show False by linarith
  qed
  ultimately show ?thesis by linarith
qed

lemma round_half_even_of_int [simp]: "round_half_even (of_int n) = n"
  by (simp add: round_half_even_def)

lemma f64_round_exact:
  assumes m: "0 \<le> m" "m < 2 ^ 53" and e: "- 1074 \<le> e"
    and r: "of_int m * pow2 e < 2 ^ 1024"
  shows "f64_round s (of_int m * pow2 e) = F64 s (of_int m * pow2 e)"
proof (cases "m = 0")
  case True
  then show ?thesis by (simp add: f64_round_def)
next
  case False
  define q where "q = of_int m * pow2 e"
  have q: "0 < q" using False m by (simp add: q_def)
  have "(of_int m :: rat) < 2 ^ 53" using m(2) by simp
  then have "q < 2 ^ 53 * pow2 e"
    unfolding q_def by (rule mult_strict_right_mono) simp
  also have "\<dots> = pow2 (53 + e)" by (simp add: pow2_add pow2_nat)
  finally have "pow2 (ilog2 q) < pow2 (53 + e)"
    using ilog2_bounds [OF q] by linarith
  then have "ilog2 q < 53 + e"
    using pow2_mono [of "53 + e" "ilog2 q"] by (cases "ilog2 q < 53 + e") auto
  then have le: "max (ilog2 q - 52) (- 1074) \<le> e" using e by simp
  define u where "u = max (ilog2 q - 52) (- 1074)"
  have "pow2 e = pow2 (e - u) * pow2 u" by (simp flip: pow2_add)
  also have "pow2 (e - u) = of_int (2 ^ nat (e - u))"
    using le by (simp add: pow2_nat u_def)
  finally have qu: "q / pow2 u = of_int (m * 2 ^ nat (e - u))"
    by (simp add: q_def)
  have "of_int (round_half_even (q / pow2 u)) * pow2 u = q / pow2 u * pow2 u"
    by (simp only: qu round_half_even_of_int)
  then have "of_int (round_half_even (q / pow2 u)) * pow2 u = q"
    by simp
  then show ?thesis
    using q r by (simp add: f64_round_def Let_def flip: q_def u_def)
qed

lemma f64_round_int:
  assumes "0 \<le> m" "m < 2 ^ 53"
  shows "f64_round s (of_int m) = F64 s (of_int m)"
proof -
  have "(of_int m :: rat) < 2 ^ 53" using assms(2) by simp
  also have "\<dots> < 2 ^ 1024" by simp
  finally show ?thesis
    using f64_round_exact [of m 0 s] assms by (simp add: pow2_def)
qed

lemma f64_of_int_exact:
  "\<bar>i\<bar> < 2 ^ 53 \<Longrightarrow> f64_of_int i = F64 (i < 0) (of_int \<bar>i\<bar>)"
  unfolding f64_of_int_def using f64_round_int [of "\<bar>i\<bar>" "i < 0"] by simp

lemma isqrt_bounds: "isqrt n * isqrt n \<le> n \<and> n < (isqrt n + 1) * (isqrt n + 1)"
proof (induction n rule: isqrt.induct)
  case (1 n)
  show ?case
  proof (cases "n = 0")
    case True
    then show ?thesis by (simp add: isqrt.simps)
  next
    case False
    define r where "r = isqrt (n div 4)"
    have ih: "r * r \<le> n div 4" "n div 4 < (r + 1) * (r + 1)"
      using 1 [OF False] by (simp_all add: r_def)
    have lo: "(2 * r) * (2 * r) \<le> n" using ih(1) by simp
    have "n div 4 + 1 \<le> (r + 1) * (r + 1)" using ih(2) by simp
    then have "4 * (n div 4) + 4 \<le> 4 * ((r + 1) * (r + 1))" by simp
    then have hi: "n < (2 * r + 2) * (2 * r + 2)" by (simp add: algebra_simps)
    show ?thesis
      using lo hi False
      by (subst (1 2 3 4) isqrt.simps) (auto simp: Let_def algebra_simps simp flip: r_def)
  qed
qed

lemma isqrt_unique:
  assumes "m * m \<le> n" "n < (m + 1) * (m + 1)"
  shows "isqrt n = m"
proof -
  note b = isqrt_bounds [of n]
  have "\<not> isqrt n < m"
  proof
    assume "isqrt n < m"
    then have "isqrt n + 1 \<le> m" by simp
    then have "(isqrt n + 1) * (isqrt n + 1) \<le> m * m" by (intro mult_le_mono)
    with b assms show False by linarith
  qed
  moreover have "\<not> m < isqrt n"
  proof
    assume "m < isqrt n"
    then have "m + 1 \<le> isqrt n" by simp
    then have "(m + 1) * (m + 1) \<le> isqrt n * isqrt n" by (intro mult_le_mono)
    with b assms show False by linarith
  qed
  ultimately show ?thesis by linarith
qed

lemma isqrt_square [simp]: "isqrt (m * m) = m"
  by (rule isqrt_unique) simp_all

lemma round_half_even_error: "\<bar>of_int (round_half_even x) - x\<bar> \<le> 1 / 2"
proof -
  define f where "f = \<lfloor>x\<rfloor>"
  have "of_int f \<le> x" "x < of_int f + 1" unfolding f_def by linarith+
  then show ?thesis
    unfolding round_half_even_def Let_def f_def [symmetric] by (auto simp: abs_if)
qed

lemma round_half_even_numeral [simp]: "round_half_even (numeral k) = numeral k"
  using round_half_even_of_int [of "numeral k"] by simp

lemma round_half_even_mono_ge:
  assumes "of_int n \<le> x"
  shows "n \<le> round_half_even x"
proof -
  have "n \<le> \<lfloor>x\<rfloor>" using assms by (simp add: le_floor_iff)
  then show ?thesis by (auto simp: round_half_even_def Let_def)
qed

text \<open>In the range of the normal numbers rounding has a relative error of at most 2^-53.\<close>

lemma f64_round_error:
  assumes lo: "pow2 (- 1022) \<le> q" and hi: "q < 2 ^ 1023"
  shows "\<exists>r. f64_round s q = F64 s r \<and> \<bar>r - q\<bar> \<le> q / 2 ^ 53 \<and> 0 < r"
proof -
  have q: "0 < q" using lo pow2_pos [of "- 1022"] by linarith
  define e where "e = ilog2 q"
  have b: "pow2 e \<le> q" "q < pow2 (e + 1)"
    using ilog2_bounds [OF q] by (simp_all add: e_def)
  have "pow2 (- 1022) < pow2 (e + 1)" using lo b by linarith
  then have "- 1022 < e + 1"
    using pow2_mono [of "e + 1" "- 1022"] by (cases "- 1022 < e + 1") auto
  then have mx: "max (e - 52) (- 1074) = e - 52" by simp
  define u where "u = pow2 (e - 52)"
  have u: "0 < u" by (simp add: u_def)
  have ue: "u * 2 ^ 52 = pow2 e"
    using pow2_add [of "e - 52" 52] by (simp add: u_def pow2_nat)
  define n where "n = round_half_even (q / u)"
  have err: "\<bar>of_int n - q / u\<bar> \<le> 1 / 2"
    unfolding n_def by (rule round_half_even_error)
  have "\<bar>of_int n * u - q\<bar> = \<bar>of_int n - q / u\<bar> * u"
    using u by (simp add: abs_mult_pos [symmetric] field_simps del: abs_mult_pos)
  also have "\<dots> \<le> 1 / 2 * u"
    using err u by (intro mult_right_mono) auto
  finally have d: "\<bar>of_int n * u - q\<bar> \<le> u / 2" by simp
  have uq: "u / 2 \<le> q / 2 ^ 53"
  proof -
    have "u * 2 ^ 52 \<le> q" using ue b by simp
    then have "u \<le> q / 2 ^ 52" by (simp add: pos_le_divide_eq)
    then show ?thesis by simp
  qed
  have "of_int n * u \<le> q + u / 2" using d by linarith
  also have "\<dots> \<le> q + q / 2 ^ 53" using uq by simp
  also have "\<dots> < 2 ^ 1023 + 2 ^ 1023 / 2 ^ 53" using hi by (intro add_strict_mono) (simp_all add: divide_strict_right_mono)
  also have "\<dots> < (2 ^ 1024 :: rat)" by simp
  finally have nov: "\<not> 2 ^ 1024 \<le> of_int n * u" by simp
  have "(2 ^ 52 :: rat) \<le> q / u"
    using ue b u by (simp add: pos_le_divide_eq mult.commute)
  then have "2 ^ 52 \<le> n"
    unfolding n_def by (intro round_half_even_mono_ge) simp
  then have "0 < n" by (smt (verit) zero_less_power)
  then have pos: "0 < of_int n * u" using u by simp
  have "f64_round s q = F64 s (of_int n * u)"
    using q nov by (simp add: f64_round_def Let_def mx flip: e_def u_def n_def)
  then show ?thesis using d uq pos by auto
qed

lemma f64_round_numeral:
  "(numeral k :: int) < 2 ^ 53 \<Longrightarrow> f64_round s (numeral k) = F64 s (numeral k)"
  using f64_round_int [of "numeral k" s] by simp

lemma ilog2_1e14: "ilog2 100000000000000 = 46"
  by (rule ilog2_eqI) (simp_all add: pow2_def)

lemma sqrt_sticky_1e14: "sqrt_sticky 100000000000000 = 10000000"
proof -
  have "isqrt 115292150460684697600000000000000 = 10737418240000000"
    using isqrt_square [of 10737418240000000] by simp
  then show ?thesis
    by (simp add: sqrt_sticky_def ilog2_1e14 Let_def pow2_def)
qed

section \<open>Rows of the table (pingsToRows)\<close>

text \<open>
  \<open>fmtInt\<close> and \<open>fmtFrac\<close> write decimal digits in front of the text that is
  already in the buffer, as the functions of package \<open>time\<close> do;
  \<open>Duration_String\<close> and \<open>Duration_Round\<close> are \<open>Duration.String\<close> and
  \<open>Duration.Round\<close>, and \<open>Sprintf_loss\<close> is \<open>fmt.Sprintf\<close> with the format
  \<open>%.1f%%\<close>.
\<close>

definition digit_char :: "nat \<Rightarrow> char" where
  "digit_char d = char_of (d + 48)"

fun fmtInt :: "string \<Rightarrow> nat \<Rightarrow> string" where
  "fmtInt buf v =
     (if v < 10 then digit_char v # buf
      else fmtInt (digit_char (v mod 10) # buf) (v div 10))"

declare fmtInt.simps [simp del]

fun fmtFrac_loop :: "nat \<Rightarrow> string \<Rightarrow> nat \<Rightarrow> bool \<Rightarrow> string \<times> nat \<times> bool" where
  "fmtFrac_loop 0 buf v print = (buf, v, print)"
| "fmtFrac_loop (Suc i) buf v print =
     (let digit = v mod 10;
          print' = (print \<or> digit \<noteq> 0)
      in fmtFrac_loop i (if print' then digit_char digit # buf else buf) (v div 10) print')"

definition fmtFrac :: "string \<Rightarrow> nat \<Rightarrow> nat \<Rightarrow> string \<times> nat" where
  "fmtFrac buf v prec =
     (case fmtFrac_loop prec buf v False of
        (buf', v', print) \<Rightarrow> (if print then CHR ''.'' # buf' else buf', v'))"

definition Duration_String :: "Duration \<Rightarrow> string" where
  "Duration_String d =
     (let neg = (sint d < 0);
          u = unat (if neg then - d else d)
      in if u < 1000000000 then
           (if u = 0 then ''0s''
            else
              let (prec, unit) =
                    (if u < 1000 then (0, ''ns'')
                     else if u < 1000000 then (3, [CHR 0xC2, CHR 0xB5, CHR ''s''])
                     else (6, ''ms''));
                  (buf, u1) = fmtFrac unit u prec;
                  buf = fmtInt buf u1
              in if neg then CHR ''-'' # buf else buf)
         else
           let (buf, u1) = fmtFrac ''s'' u 9;
               buf = fmtInt buf (u1 mod 60);
               u2 = u1 div 60;
               buf =
                 (if 0 < u2 then
                    let buf = fmtInt (CHR ''m'' # buf) (u2 mod 60);
                        u3 = u2 div 60
                    in if 0 < u3 then fmtInt (CHR ''h'' # buf) u3 else buf
                  else buf)
           in if neg then CHR ''-'' # buf else buf)"

definition lessThanHalf :: "Duration \<Rightarrow> Duration \<Rightarrow> bool" where
  "lessThanHalf x y = (x + x < y)"

definition Duration_Round :: "Duration \<Rightarrow> Duration \<Rightarrow> Duration" where
  "Duration_Round d m =
     (if sint m \<le> 0 then d
      else
        let r = i64_rem d m
        in if sint d < 0 then
             (let r = - r
              in if lessThanHalf r m then d + r
                 else let d1 = d - m + r
                      in if sint d1 < sint d then d1 else - (2 ^ 63))
           else if lessThanHalf r m then d - r
           else let d1 = d + m - r
                in if sint d < sint d1 then d1 else 2 ^ 63 - 1)"

definition Sprintf_loss :: "float64 \<Rightarrow> string" where
  "Sprintf_loss x =
     (case x of
        F64NaN \<Rightarrow> ''NaN%''
      | F64Inf s \<Rightarrow> (if s then ''-Inf%'' else ''+Inf%'')
      | F64 s q \<Rightarrow>
          (let n = nat (round_half_even (q * 10))
           in (if s then ''-'' else '''') @ fmtInt (CHR ''.'' # digit_char (n mod 10) # ''%'') (n div 10)))"

type_synonym Row = "string list"

definition pingsToRow :: "pingStats \<Rightarrow> Row" where
  "pingsToRow s =
     [Name s, Addr s, Sprintf_loss (PktLoss s),
      Duration_String (Duration_Round (RttAvg s) 100000),
      Duration_String (Duration_Round (RttStdDev s) 100000)]"

definition pingsToRows :: "pingStats list \<Rightarrow> Row list" where
  "pingsToRows pings = map pingsToRow pings"


lemma digit_char_simps:
  "digit_char 0 = CHR ''0''" "digit_char 1 = CHR ''1''" "digit_char 2 = CHR ''2''"
  "digit_char 3 = CHR ''3''" "digit_char 4 = CHR ''4''" "digit_char 5 = CHR ''5''"
  "digit_char 6 = CHR ''6''" "digit_char 7 = CHR ''7''" "digit_char 8 = CHR ''8''"
  "digit_char 9 = CHR ''9''"
  by (simp_all add: digit_char_def) code_simp+

lemma Sprintf_loss_50: "Sprintf_loss (F64 False 50) = ''50.0%''"
  by (simp add: Sprintf_loss_def Let_def fmtInt.simps digit_char_simps)

lemma Sprintf_loss_nan: "Sprintf_loss F64NaN = ''NaN%''"
  by (simp add: Sprintf_loss_def)

section \<open>The Welford update (OnPktRecv)\<close>

lemma OnPktRecv_first:
  "pktsRecv s = 0 \<Longrightarrow>
   OnPktRecv pkt s = Inr (s\<lparr>pktsRecv := 1, rttAvg := Rtt pkt, rttVar := F64 False 0\<rparr>)"
  by (simp add: OnPktRecv_def)

lemma OnPktRecv_later:
  "pktsRecv s \<noteq> 0 \<Longrightarrow> pktsRecv s \<noteq> - 1 \<Longrightarrow>
   OnPktRecv pkt s =
     (let n = pktsRecv s + 1;
          delta = Rtt pkt - rttAvg s;
          mean = rttAvg s + i64_div delta n;
          acc = f64_add (rttVar s)
                  (f64_mul (f64_of_int (sint delta)) (f64_of_int (sint (Rtt pkt - mean))))
      in Inr (s\<lparr>pktsRecv := n, rttAvg := mean, rttVar := acc,
                rttStdDev := f64_to_i64 (f64_sqrt (f64_div acc (f64_of_int (sint (n - 1)))))\<rparr>))"
proof -
  assume a: "pktsRecv s \<noteq> 0" "pktsRecv s \<noteq> - 1"
  have "pktsRecv s + 1 \<noteq> 1" using a(1) by simp
  moreover have "pktsRecv s + 1 \<noteq> 0"
    using a(2) by (metis add_eq_0_iff2 add.commute)
  ultimately show ?thesis
    by (simp add: OnPktRecv_def Let_def)
qed

lemma sends_fresh:
  "(OnPktSend p ^^ k) (newPingStats name addr) = (newPingStats name addr)\<lparr>pktsSent := of_nat k\<rparr>"
  by (induction k) (simp_all add: OnPktSend_def newPingStats_def)

text \<open>
  C6: after exactly one receive with round-trip time \<open>X\<close> on a fresh target (any
  number of sends, no receive before) the mean is \<open>X\<close>, the standard deviation is
  zero and the variance accumulator is 0.
\<close>

theorem first_receive_sets_mean:
  "\<exists>s'. OnPktRecv \<lparr>Rtt = X\<rparr> ((OnPktSend p ^^ k) (newPingStats name addr)) = Inr s'
     \<and> RttAvg s' = X \<and> RttStdDev s' = 0 \<and> rttVar s' = F64 False 0 \<and> pktsRecv s' = 1"
proof -
  have "pktsRecv ((OnPktSend p ^^ k) (newPingStats name addr)) = 0"
    "rttStdDev ((OnPktSend p ^^ k) (newPingStats name addr)) = 0"
    by (simp_all add: sends_fresh) (simp_all add: newPingStats_def)
  then show ?thesis
    by (simp add: OnPktRecv_first RttAvg_def RttStdDev_def)
qed

lemma welford_example:
  "\<exists>s3. run [Recv \<lparr>Rtt = 10000000\<rparr>, Recv \<lparr>Rtt = 20000000\<rparr>, Recv \<lparr>Rtt = 30000000\<rparr>]
           (newPingStats name addr) = Inr s3
     \<and> RttAvg s3 = 20000000 \<and> RttStdDev s3 = 10000000"
proof -
  define s0 where "s0 = newPingStats name addr"
  define s1 where "s1 = s0\<lparr>pktsRecv := 1, rttAvg := 10000000, rttVar := F64 False 0\<rparr>"
  have r1: "OnPktRecv \<lparr>Rtt = 10000000\<rparr> s0 = Inr s1"
    by (simp add: OnPktRecv_first s0_def s1_def newPingStats_def)
  obtain s2 where r2: "OnPktRecv \<lparr>Rtt = 20000000\<rparr> s1 = Inr s2"
    and s2: "pktsRecv s2 = 2" "rttAvg s2 = 15000000" "rttVar s2 = F64 False 50000000000000"
    by (simp add: OnPktRecv_later s1_def s0_def newPingStats_def Let_def i64_div_def
        signed_divide_int_def f64_of_int_exact f64_round_numeral)
  obtain s3 where r3: "OnPktRecv \<lparr>Rtt = 30000000\<rparr> s2 = Inr s3"
    and s3: "rttAvg s3 = 20000000" "rttStdDev s3 = 10000000"
    by (simp add: OnPktRecv_later s2 Let_def i64_div_def
        signed_divide_int_def f64_of_int_exact f64_round_numeral sqrt_sticky_1e14 f64_to_i64_def)
  show ?thesis
    using r1 r2 r3 s3 by (simp add: RttAvg_def RttStdDev_def flip: s0_def)
qed

text \<open>
  C4: OnPktRecv is Welford's update.  The first sample sets the mean to the
  round-trip time and the accumulator to 0; every later one computes
  \<open>delta = rtt - mean\<close>, adds \<open>delta / n\<close> to the mean, adds
  \<open>delta * (rtt - updated mean)\<close> to the accumulator and sets the standard deviation
  to \<open>sqrt (accumulator / (n - 1))\<close>, where \<open>n\<close> is the receive count with the new
  sample (the division panics if that count is zero).  After 10 ms, 20 ms and
  30 ms on a fresh target the mean is 20 ms and the standard deviation 10 ms.
\<close>

theorem welford_update:
  "(pktsRecv s = 0 \<longrightarrow>
      OnPktRecv pkt s = Inr (s\<lparr>pktsRecv := 1, rttAvg := Rtt pkt, rttVar := F64 False 0\<rparr>))
   \<and> (pktsRecv s \<noteq> 0 \<and> pktsRecv s \<noteq> - 1 \<longrightarrow>
      OnPktRecv pkt s =
        (let n = pktsRecv s + 1;
             delta = Rtt pkt - rttAvg s;
             mean = rttAvg s + i64_div delta n;
             acc = f64_add (rttVar s)
                     (f64_mul (f64_of_int (sint delta)) (f64_of_int (sint (Rtt pkt - mean))))
         in Inr (s\<lparr>pktsRecv := n, rttAvg := mean, rttVar := acc,
                   rttStdDev :=
                     f64_to_i64 (f64_sqrt (f64_div acc (f64_of_int (sint (n - 1)))))\<rparr>)))
   \<and> (\<exists>s3. run [Recv \<lparr>Rtt = 10000000\<rparr>, Recv \<lparr>Rtt = 20000000\<rparr>,
                  Recv \<lparr>Rtt = 30000000\<rparr>] (newPingStats name addr) = Inr s3
         \<and> RttAvg s3 = 20000000 \<and> RttStdDev s3 = 10000000)"
  using OnPktRecv_first [of s pkt] OnPktRecv_later [of s pkt] welford_example [of name addr]
  by blast

theorem welford_update_witness:
  "pktsRecv (newPingStats ''a'' ''h'') = 0
   \<and> OnPktRecv \<lparr>Rtt = 10000000\<rparr> (newPingStats ''a'' ''h'')
       = Inr ((newPingStats ''a'' ''h'')\<lparr>pktsRecv := 1, rttAvg := 10000000, rttVar := F64 False 0\<rparr>)
   \<and> pktsRecv ((newPingStats ''a'' ''h'')\<lparr>pktsRecv := 1, rttAvg := 10000000\<rparr>) \<noteq> 0
   \<and> pktsRecv ((newPingStats ''a'' ''h'')\<lparr>pktsRecv := 1, rttAvg := 10000000\<rparr>) \<noteq> - 1
   \<and> (\<exists>s2. OnPktRecv \<lparr>Rtt = 20000000\<rparr>
              ((newPingStats ''a'' ''h'')\<lparr>pktsRecv := 1, rttAvg := 10000000\<rparr>) = Inr s2
         \<and> pktsRecv s2 = 2 \<and> rttAvg s2 = 15000000
         \<and> rttVar s2 = F64 False 50000000000000)"
proof -
  have h0: "pktsRecv (newPingStats ''a'' ''h'') = 0"
    by (simp add: newPingStats_def)
  have h1: "pktsRecv ((newPingStats ''a'' ''h'')\<lparr>pktsRecv := 1, rttAvg := 10000000\<rparr>) \<noteq> 0
      \<and> pktsRecv ((newPingStats ''a'' ''h'')\<lparr>pktsRecv := 1, rttAvg := 10000000\<rparr>) \<noteq> - 1"
    by simp
  show ?thesis
    using h0 h1
      welford_update [of "newPingStats ''a'' ''h''" "\<lparr>Rtt = 10000000\<rparr>" "''a''" "''h''"]
      welford_update [of "(newPingStats ''a'' ''h'')\<lparr>pktsRecv := 1, rttAvg := 10000000\<rparr>"
        "\<lparr>Rtt = 20000000\<rparr>" "''a''" "''h''"]
    by (simp add: newPingStats_def Let_def i64_div_def signed_divide_int_def
        f64_of_int_exact f64_round_numeral)
qed

section \<open>The running mean is computed with truncating integer division\<close>

lemma sint_i64_of_int:
  "- (2 ^ 63) \<le> k \<Longrightarrow> k < 2 ^ 63 \<Longrightarrow> sint (word_of_int k :: 64 word) = k"
  by (simp add: sint_sbintrunc' signed_take_bit_int_eq_self)

lemma i64_sub_exact:
  fixes a b :: "64 word"
  assumes "- (2 ^ 63) \<le> sint a - sint b" "sint a - sint b < 2 ^ 63"
  shows "sint (a - b) = sint a - sint b"
proof -
  have "a - b = word_of_int (sint a - sint b)" by simp
  then show ?thesis using sint_i64_of_int [OF assms] by simp
qed

lemma i64_add_exact:
  fixes a b :: "64 word"
  assumes "- (2 ^ 63) \<le> sint a + sint b" "sint a + sint b < 2 ^ 63"
  shows "sint (a + b) = sint a + sint b"
proof -
  have "a + b = word_of_int (sint a + sint b)" by simp
  then show ?thesis using sint_i64_of_int [OF assms] by simp
qed

lemma sint_i64_range: "- (2 ^ 63) \<le> sint (a :: 64 word)" "sint (a :: 64 word) < 2 ^ 63"
  using sint_ge [of a] sint_lt [of a] by simp_all

text \<open>The quotient of Go's \<open>/\<close>: towards zero.\<close>

definition trunc_quot :: "int \<Rightarrow> int \<Rightarrow> int" where
  "trunc_quot d n = (if 0 \<le> d then d div n else - ((- d) div n))"

lemma sdiv_trunc_quot: "0 < n \<Longrightarrow> d sdiv n = trunc_quot d n"
  by (auto simp: signed_divide_int_def trunc_quot_def sgn_if)

lemma trunc_quot_between:
  assumes "2 \<le> n"
  shows "(0 \<le> d \<longrightarrow> 0 \<le> trunc_quot d n \<and> trunc_quot d n \<le> d)
       \<and> (d \<le> 0 \<longrightarrow> d \<le> trunc_quot d n \<and> trunc_quot d n \<le> 0)"
proof -
  have "0 \<le> x \<Longrightarrow> 0 \<le> x div n \<and> x div n \<le> x" for x :: int
    using assms zdiv_mono2 [of x 1 n] by (simp add: pos_imp_zdiv_nonneg_iff)
  from this [of d] this [of "- d"] show ?thesis
    by (auto simp: trunc_quot_def)
qed

lemma mean_update_exact:
  assumes n: "1 \<le> sint (pktsRecv s)" "sint (pktsRecv s) < 2 ^ 63 - 1"
    and d: "- (2 ^ 63) \<le> sint (Rtt pkt) - sint (rttAvg s)"
      "sint (Rtt pkt) - sint (rttAvg s) < 2 ^ 63"
  shows "\<exists>s'. OnPktRecv pkt s = Inr s'
    \<and> sint (RttAvg s')
        = sint (rttAvg s)
          + trunc_quot (sint (Rtt pkt) - sint (rttAvg s)) (sint (pktsRecv s) + 1)"
proof -
  define dd where "dd = sint (Rtt pkt) - sint (rttAvg s)"
  define nn where "nn = sint (pktsRecv s) + 1"
  have ne: "pktsRecv s \<noteq> 0" "pktsRecv s \<noteq> - 1" using n(1) by auto
  have sn: "sint (pktsRecv s + 1) = nn"
    unfolding nn_def using n by (subst i64_add_exact) simp_all
  have sd: "sint (Rtt pkt - rttAvg s) = dd"
    unfolding dd_def using d by (rule i64_sub_exact)
  have n2: "2 \<le> nn" using n(1) by (simp add: nn_def)
  have q: "sint (Rtt pkt - rttAvg s) sdiv sint (pktsRecv s + 1) = trunc_quot dd nn"
    using n2 by (simp add: sn sd sdiv_trunc_quot)
  note b = trunc_quot_between [OF n2, of dd]
  have ra: "- (2 ^ 63) \<le> sint (rttAvg s)" "sint (rttAvg s) < 2 ^ 63"
    and rr: "- (2 ^ 63) \<le> sint (Rtt pkt)" "sint (Rtt pkt) < 2 ^ 63"
    by (rule sint_i64_range)+
  have dr: "- (2 ^ 63) \<le> dd" "dd < 2 ^ 63" using d by (simp_all add: dd_def)
  have qr: "- (2 ^ 63) \<le> trunc_quot dd nn" "trunc_quot dd nn < 2 ^ 63"
    using b dr by (cases "0 \<le> dd"; linarith)+
  have sq: "sint (i64_div (Rtt pkt - rttAvg s) (pktsRecv s + 1)) = trunc_quot dd nn"
    unfolding i64_div_def q using qr by (rule sint_i64_of_int)
  have sum: "- (2 ^ 63) \<le> sint (rttAvg s) + trunc_quot dd nn"
    "sint (rttAvg s) + trunc_quot dd nn < 2 ^ 63"
    using b ra rr by (cases "0 \<le> dd"; simp add: dd_def; linarith)+
  have "sint (rttAvg s + i64_div (Rtt pkt - rttAvg s) (pktsRecv s + 1))
      = sint (rttAvg s) + trunc_quot dd nn"
    using sum by (subst i64_add_exact) (simp_all add: sq)
  then show ?thesis
    using ne by (simp add: OnPktRecv_later Let_def RttAvg_def dd_def nn_def)
qed

lemma two_samples:
  "\<exists>s2. run [Recv \<lparr>Rtt = x\<rparr>, Recv \<lparr>Rtt = y\<rparr>] (newPingStats name addr) = Inr s2
     \<and> RttAvg s2 = x + i64_div (y - x) 2"
proof -
  define s1 where "s1 = (newPingStats name addr)\<lparr>pktsRecv := 1, rttAvg := x, rttVar := F64 False 0\<rparr>"
  have r1: "OnPktRecv \<lparr>Rtt = x\<rparr> (newPingStats name addr) = Inr s1"
    by (simp add: OnPktRecv_first s1_def newPingStats_def)
  obtain s2 where r2: "OnPktRecv \<lparr>Rtt = y\<rparr> s1 = Inr s2"
    and s2: "rttAvg s2 = x + i64_div (y - x) 2"
    by (simp add: OnPktRecv_later s1_def newPingStats_def Let_def)
  show ?thesis using r1 r2 s2 by (simp add: RttAvg_def)
qed

text \<open>
  C10: the running mean is updated by the int64 quotient, truncated towards
  zero, of the delta by the receive count: where nothing overflows the new mean
  is \<open>mean + trunc_quot (rtt - mean) n\<close>.  So the mean differs from the exact mean
  of the samples: after 1 ns and 2 ns it is 1 ns (not 1.5 ns), after 1 ns and
  4 ns it is 2 ns (not 2.5 ns), after 4 ns and 1 ns it is 3 ns (not 2.5 ns).
\<close>

theorem integer_mean_truncates:
  "(1 \<le> sint (pktsRecv s) \<and> sint (pktsRecv s) < 2 ^ 63 - 1
      \<and> - (2 ^ 63) \<le> sint (Rtt pkt) - sint (rttAvg s)
      \<and> sint (Rtt pkt) - sint (rttAvg s) < 2 ^ 63 \<longrightarrow>
      (\<exists>s'. OnPktRecv pkt s = Inr s'
         \<and> sint (RttAvg s')
             = sint (rttAvg s)
               + (let d = sint (Rtt pkt) - sint (rttAvg s); n = sint (pktsRecv s) + 1
                  in if 0 \<le> d then d div n else - ((- d) div n))))
   \<and> (\<exists>s2. run [Recv \<lparr>Rtt = 1\<rparr>, Recv \<lparr>Rtt = 2\<rparr>] (newPingStats name addr) = Inr s2
         \<and> RttAvg s2 = 1 \<and> (of_int (sint (RttAvg s2)) :: rat) = (1 + 2) / 2 - 1 / 2)
   \<and> (\<exists>s2. run [Recv \<lparr>Rtt = 1\<rparr>, Recv \<lparr>Rtt = 4\<rparr>] (newPingStats name addr) = Inr s2
         \<and> RttAvg s2 = 2 \<and> (of_int (sint (RttAvg s2)) :: rat) = (1 + 4) / 2 - 1 / 2)
   \<and> (\<exists>s2. run [Recv \<lparr>Rtt = 4\<rparr>, Recv \<lparr>Rtt = 1\<rparr>] (newPingStats name addr) = Inr s2
         \<and> RttAvg s2 = 3 \<and> (of_int (sint (RttAvg s2)) :: rat) = (4 + 1) / 2 + 1 / 2)"
proof (intro conjI impI)
  assume a: "1 \<le> sint (pktsRecv s) \<and> sint (pktsRecv s) < 2 ^ 63 - 1
      \<and> - (2 ^ 63) \<le> sint (Rtt pkt) - sint (rttAvg s)
      \<and> sint (Rtt pkt) - sint (rttAvg s) < 2 ^ 63"
  then show "\<exists>s'. OnPktRecv pkt s = Inr s'
         \<and> sint (RttAvg s')
             = sint (rttAvg s)
               + (let d = sint (Rtt pkt) - sint (rttAvg s); n = sint (pktsRecv s) + 1
                  in if 0 \<le> d then d div n else - ((- d) div n))"
    using mean_update_exact [of s pkt] by (simp add: trunc_quot_def Let_def)
next
  show "\<exists>s2. run [Recv \<lparr>Rtt = 1\<rparr>, Recv \<lparr>Rtt = 2\<rparr>] (newPingStats name addr) = Inr s2
         \<and> RttAvg s2 = 1 \<and> (of_int (sint (RttAvg s2)) :: rat) = (1 + 2) / 2 - 1 / 2"
    using two_samples [of 1 2 name addr] by (auto simp: i64_div_def signed_divide_int_def)
next
  show "\<exists>s2. run [Recv \<lparr>Rtt = 1\<rparr>, Recv \<lparr>Rtt = 4\<rparr>] (newPingStats name addr) = Inr s2
         \<and> RttAvg s2 = 2 \<and> (of_int (sint (RttAvg s2)) :: rat) = (1 + 4) / 2 - 1 / 2"
    using two_samples [of 1 4 name addr] by (auto simp: i64_div_def signed_divide_int_def)
next
  show "\<exists>s2. run [Recv \<lparr>Rtt = 4\<rparr>, Recv \<lparr>Rtt = 1\<rparr>] (newPingStats name addr) = Inr s2
         \<and> RttAvg s2 = 3 \<and> (of_int (sint (RttAvg s2)) :: rat) = (4 + 1) / 2 + 1 / 2"
    using two_samples [of 4 1 name addr] by (auto simp: i64_div_def signed_divide_int_def)
qed

theorem integer_mean_truncates_witness:
  "(let s = (newPingStats ''a'' ''h'')\<lparr>pktsRecv := 2, rttAvg := 10\<rparr>; pkt = \<lparr>Rtt = 3\<rparr>
    in 1 \<le> sint (pktsRecv s) \<and> sint (pktsRecv s) < 2 ^ 63 - 1
      \<and> - (2 ^ 63) \<le> sint (Rtt pkt) - sint (rttAvg s)
      \<and> sint (Rtt pkt) - sint (rttAvg s) < 2 ^ 63
      \<and> (\<exists>s'. OnPktRecv pkt s = Inr s' \<and> sint (RttAvg s') = 8))"
proof -
  let ?t = "(newPingStats ''a'' ''h'')\<lparr>pktsRecv := 2, rttAvg := 10\<rparr>"
  have h: "1 \<le> sint (pktsRecv ?t) \<and> sint (pktsRecv ?t) < 2 ^ 63 - 1
      \<and> - (2 ^ 63) \<le> sint (Rtt \<lparr>Rtt = 3\<rparr>) - sint (rttAvg ?t)
      \<and> sint (Rtt \<lparr>Rtt = 3\<rparr>) - sint (rttAvg ?t) < 2 ^ 63"
    by simp
  show ?thesis
    using h integer_mean_truncates [of ?t "\<lparr>Rtt = 3\<rparr>" "''a''" "''h''"]
    by (simp add: Let_def)
qed

section \<open>The packet counters\<close>

text \<open>
  \<open>answers_only k es\<close>: in the sequence \<open>es\<close> of callbacks every receive answers a
  send that has not been answered yet, when \<open>k\<close> sends are unanswered at its start.
\<close>

fun answers_only :: "nat \<Rightarrow> event list \<Rightarrow> bool" where
  "answers_only outstanding [] = True"
| "answers_only outstanding (Send pkt # es) = answers_only (Suc outstanding) es"
| "answers_only outstanding (Recv pkt # es) = (0 < outstanding \<and> answers_only (outstanding - 1) es)"

lemma OnPktSend_counters:
  assumes "sint (pktsSent s) + 1 < 2 ^ 63"
  shows "sint (pktsSent (OnPktSend pkt s)) = sint (pktsSent s) + 1"
    "pktsRecv (OnPktSend pkt s) = pktsRecv s"
proof -
  have "- (2 ^ 63) \<le> sint (pktsSent s) + sint (1 :: 64 word)"
    using sint_i64_range(1) [of "pktsSent s"] by simp
  then show "sint (pktsSent (OnPktSend pkt s)) = sint (pktsSent s) + 1"
    using assms by (simp add: OnPktSend_def i64_add_exact)
  show "pktsRecv (OnPktSend pkt s) = pktsRecv s" by (simp add: OnPktSend_def)
qed

lemma OnPktRecv_counters:
  assumes "0 \<le> sint (pktsRecv s)" "sint (pktsRecv s) + 1 < 2 ^ 63"
  shows "\<exists>s'. OnPktRecv pkt s = Inr s' \<and> sint (pktsRecv s') = sint (pktsRecv s) + 1
           \<and> pktsSent s' = pktsSent s"
proof -
  have s1: "sint (pktsRecv s + 1) = sint (pktsRecv s) + 1"
    using assms by (subst i64_add_exact) simp_all
  show ?thesis
  proof (cases "pktsRecv s = 0")
    case True
    then show ?thesis by (simp add: OnPktRecv_first)
  next
    case False
    moreover have "pktsRecv s \<noteq> - 1" using assms(1) by auto
    ultimately show ?thesis using s1 by (simp add: OnPktRecv_later Let_def)
  qed
qed

lemma run_append:
  "run (es1 @ es2) s = (case run es1 s of Inl p \<Rightarrow> Inl p | Inr s' \<Rightarrow> run es2 s')"
  by (induction es1 arbitrary: s) (auto split: sum.splits)

lemma run_counters:
  assumes "answers_only k es" "0 \<le> sint (pktsRecv s)"
    "sint (pktsRecv s) + int k \<le> sint (pktsSent s)"
    "sint (pktsSent s) + int (length es) < 2 ^ 63"
  shows "\<exists>s'. run es s = Inr s' \<and> sint (pktsRecv s) \<le> sint (pktsRecv s')
           \<and> sint (pktsSent s) \<le> sint (pktsSent s')
           \<and> sint (pktsRecv s') \<le> sint (pktsSent s')
           \<and> sint (pktsSent s') \<le> sint (pktsSent s) + int (length es)"
  using assms
proof (induction k es arbitrary: s rule: answers_only.induct)
  case (1 outstanding)
  then show ?case by simp
next
  case (2 outstanding pkt es)
  let ?t = "OnPktSend pkt s"
  have t: "sint (pktsSent ?t) = sint (pktsSent s) + 1" "pktsRecv ?t = pktsRecv s"
    using "2.prems"(4) by (simp_all add: OnPktSend_counters)
  have "\<exists>s'. run es ?t = Inr s' \<and> sint (pktsRecv ?t) \<le> sint (pktsRecv s')
      \<and> sint (pktsSent ?t) \<le> sint (pktsSent s') \<and> sint (pktsRecv s') \<le> sint (pktsSent s')
      \<and> sint (pktsSent s') \<le> sint (pktsSent ?t) + int (length es)"
    using "2.prems" t by (intro "2.IH") simp_all
  then show ?case using t by auto
next
  case (3 outstanding pkt es)
  have "sint (pktsRecv s) + 1 < 2 ^ 63" using "3.prems" by simp
  then obtain t where t: "OnPktRecv pkt s = Inr t" "sint (pktsRecv t) = sint (pktsRecv s) + 1"
    "pktsSent t = pktsSent s"
    using OnPktRecv_counters [OF "3.prems"(2)] by blast
  have "\<exists>s'. run es t = Inr s' \<and> sint (pktsRecv t) \<le> sint (pktsRecv s')
      \<and> sint (pktsSent t) \<le> sint (pktsSent s') \<and> sint (pktsRecv s') \<le> sint (pktsSent s')
      \<and> sint (pktsSent s') \<le> sint (pktsSent t) + int (length es)"
    using "3.prems" t by (intro "3.IH") auto
  then show ?case using t by auto
qed

lemma answers_only_append:
  "answers_only k (es1 @ es2) \<Longrightarrow> answers_only k es1"
  by (induction k es1 rule: answers_only.induct) auto

lemma answers_only_rest:
  assumes "answers_only k (es1 @ es2)" "run es1 s = Inr s1" "0 \<le> sint (pktsRecv s)"
    "sint (pktsRecv s) + int k \<le> sint (pktsSent s)"
    "sint (pktsSent s) + int (length es1) < 2 ^ 63"
  shows "\<exists>j. answers_only j es2 \<and> 0 \<le> sint (pktsRecv s1)
           \<and> sint (pktsRecv s1) + int j \<le> sint (pktsSent s1)"
  using assms
proof (induction k es1 arbitrary: s rule: answers_only.induct)
  case (1 outstanding)
  then show ?case by auto
next
  case (2 outstanding pkt es)
  have t: "sint (pktsSent (OnPktSend pkt s)) = sint (pktsSent s) + 1"
    "pktsRecv (OnPktSend pkt s) = pktsRecv s"
    using "2.prems"(5) by (simp_all add: OnPktSend_counters)
  show ?case
    using "2.prems" t by (intro "2.IH" [of "OnPktSend pkt s"]) simp_all
next
  case (3 outstanding pkt es)
  have "sint (pktsRecv s) + 1 < 2 ^ 63" using "3.prems" by simp
  then obtain t where t: "OnPktRecv pkt s = Inr t" "sint (pktsRecv t) = sint (pktsRecv s) + 1"
    "pktsSent t = pktsSent s"
    using OnPktRecv_counters [OF "3.prems"(3)] by blast
  show ?case
    using "3.prems" t by (intro "3.IH" [of t]) auto
qed

text \<open>
  C7, amended.  In every sequence of fewer than \<open>2 ^ 63\<close> OnPktSend and OnPktRecv
  calls on one target in which each receive is preceded by its send, after
  every call (that is, after every prefix \<open>es1\<close>) the calls have returned,
  \<open>0 \<le> pktsRecv \<le> pktsSent\<close> holds, and neither counter is larger than it is
  after any longer prefix.
\<close>

theorem counters_invariant:
  assumes "answers_only 0 (es1 @ es2)" and "length (es1 @ es2) < 2 ^ 63"
  shows "\<exists>s1 s2. run es1 (newPingStats name addr) = Inr s1
           \<and> run (es1 @ es2) (newPingStats name addr) = Inr s2
           \<and> 0 \<le> sint (pktsRecv s1) \<and> sint (pktsRecv s1) \<le> sint (pktsSent s1)
           \<and> 0 \<le> sint (pktsSent s1)
           \<and> sint (pktsRecv s1) \<le> sint (pktsRecv s2)
           \<and> sint (pktsSent s1) \<le> sint (pktsSent s2)"
proof -
  let ?s0 = "newPingStats name addr"
  have s0: "0 \<le> sint (pktsRecv ?s0)" "sint (pktsRecv ?s0) + int 0 \<le> sint (pktsSent ?s0)"
    by (simp_all add: newPingStats_def)
  have z: "sint (pktsSent ?s0) = 0" by (simp add: newPingStats_def)
  have l1: "sint (pktsSent ?s0) + int (length es1) < 2 ^ 63"
    using assms(2) by (simp add: z)
  obtain s1 where s1: "run es1 ?s0 = Inr s1" "sint (pktsRecv ?s0) \<le> sint (pktsRecv s1)"
    "sint (pktsRecv s1) \<le> sint (pktsSent s1)"
    "sint (pktsSent s1) \<le> sint (pktsSent ?s0) + int (length es1)"
    using run_counters [OF answers_only_append [OF assms(1)] s0 l1] by blast
  obtain j where j: "answers_only j es2" "0 \<le> sint (pktsRecv s1)"
    "sint (pktsRecv s1) + int j \<le> sint (pktsSent s1)"
    using answers_only_rest [OF assms(1) s1(1) s0 l1] by blast
  have l2: "sint (pktsSent s1) + int (length es2) < 2 ^ 63"
    using s1(4) assms(2) by (simp add: z)
  obtain s2 where s2: "run es2 s1 = Inr s2" "sint (pktsRecv s1) \<le> sint (pktsRecv s2)"
    "sint (pktsSent s1) \<le> sint (pktsSent s2)"
    using run_counters [OF j l2] by blast
  show ?thesis
    using s1 s2 j by (auto simp: run_append)
qed

theorem counters_invariant_witness:
  "answers_only 0 ([Send \<lparr>Rtt = 0\<rparr>, Recv \<lparr>Rtt = 5\<rparr>] @ [Send \<lparr>Rtt = 0\<rparr>])
   \<and> length ([Send \<lparr>Rtt = 0\<rparr>, Recv \<lparr>Rtt = 5\<rparr>] @ [Send \<lparr>Rtt = 0\<rparr>]) < 2 ^ 63
   \<and> (\<exists>s1 s2. run [Send \<lparr>Rtt = 0\<rparr>, Recv \<lparr>Rtt = 5\<rparr>] (newPingStats ''a'' ''h'') = Inr s1
           \<and> run ([Send \<lparr>Rtt = 0\<rparr>, Recv \<lparr>Rtt = 5\<rparr>] @ [Send \<lparr>Rtt = 0\<rparr>]) (newPingStats ''a'' ''h'') = Inr s2
           \<and> 0 \<le> sint (pktsRecv s1) \<and> sint (pktsRecv s1) \<le> sint (pktsSent s1)
           \<and> 0 \<le> sint (pktsSent s1)
           \<and> sint (pktsRecv s1) \<le> sint (pktsRecv s2)
           \<and> sint (pktsSent s1) \<le> sint (pktsSent s2))"
proof -
  have h: "answers_only 0 ([Send \<lparr>Rtt = 0\<rparr>, Recv \<lparr>Rtt = 5\<rparr>] @ [Send \<lparr>Rtt = 0\<rparr>])"
    by simp
  have l: "length ([Send \<lparr>Rtt = 0\<rparr>, Recv \<lparr>Rtt = 5\<rparr>] @ [Send \<lparr>Rtt = 0\<rparr>]) < 2 ^ 63"
    by simp
  show ?thesis
    using h l counters_invariant [OF h l, of "''a''" "''h''"] by blast
qed

lemma run_sends:
  "run (replicate n (Send p)) s = Inr (s\<lparr>pktsSent := pktsSent s + of_nat n\<rparr>)"
  by (induction n arbitrary: s) (simp_all add: OnPktSend_def add.assoc add.commute)

lemma answers_only_sends: "answers_only k (replicate n (Send p))"
  by (induction n arbitrary: k) simp_all

theorem counter_wraps_counterexample:
  "answers_only 0 (replicate (2 ^ 63) (Send \<lparr>Rtt = 0\<rparr>))
   \<and> run (replicate (2 ^ 63 - 1) (Send \<lparr>Rtt = 0\<rparr>)) (newPingStats ''a'' ''h'')
       = Inr ((newPingStats ''a'' ''h'')\<lparr>pktsSent := 9223372036854775807\<rparr>)
   \<and> run (replicate (2 ^ 63) (Send \<lparr>Rtt = 0\<rparr>)) (newPingStats ''a'' ''h'')
       = Inr ((newPingStats ''a'' ''h'')\<lparr>pktsSent := - 9223372036854775808\<rparr>)
   \<and> sint (pktsSent ((newPingStats ''a'' ''h'')\<lparr>pktsSent := - 9223372036854775808\<rparr>)) < 0"
  by (simp add: answers_only_sends run_sends newPingStats_def)

section \<open>Packet loss\<close>

lemma PktLoss_nan:
  "pktsSent s = 0 \<Longrightarrow> pktsRecv s = 0 \<Longrightarrow> PktLoss s = F64NaN"
  by (simp add: PktLoss_def f64_of_int_exact)

lemma f64_round_zero [simp]: "f64_round s 0 = F64 s 0"
  by (simp add: f64_round_def)

lemma f64_of_int_zero [simp]: "f64_of_int 0 = F64 False 0"
  by (simp add: f64_of_int_def)

lemma two_roundings:
  fixes q t \<rho> :: rat
  assumes t: "\<bar>t - \<rho>\<bar> \<le> \<rho> / 2 ^ 53" and q: "\<bar>q - t * 100\<bar> \<le> t * 100 / 2 ^ 53"
    and r: "0 \<le> \<rho>"
  shows "\<bar>q - \<rho> * 100\<bar> \<le> \<rho> * 100 / 2 ^ 51"
proof -
  define e where "e = \<rho> / 2 ^ 53"
  define d where "d = t * 100 / 2 ^ 53"
  have t': "\<bar>t - \<rho>\<bar> \<le> e" and q': "\<bar>q - t * 100\<bar> \<le> d"
    using t q by (simp_all add: e_def d_def)
  have t_le: "t \<le> \<rho> + e" using t' by linarith
  have "d \<le> (\<rho> + e) * 100 / 2 ^ 53"
    unfolding d_def using t_le by (intro divide_right_mono mult_right_mono) simp_all
  moreover have "\<bar>q - \<rho> * 100\<bar> \<le> d + e * 100" using t' q' by linarith
  ultimately have "\<bar>q - \<rho> * 100\<bar> \<le> (\<rho> + e) * 100 / 2 ^ 53 + e * 100" by linarith
  also have "\<dots> = \<rho> * (100 * (2 + 1 / 2 ^ 53) / 2 ^ 53)"
    by (simp add: e_def algebra_simps)
  also have "\<dots> \<le> \<rho> * (100 / 2 ^ 51)" using r by (intro mult_left_mono) simp_all
  finally show ?thesis by simp
qed

lemma PktLoss_bound_aux:
  assumes ab: "0 \<le> a" "a \<le> b" "0 < b" "b < 2 ^ 53"
  shows "\<exists>q. f64_mul (f64_div (f64_of_int a) (f64_of_int b)) (f64_of_int 100) = F64 False q
    \<and> \<bar>q - of_int a / of_int b * 100\<bar> \<le> of_int a / of_int b * 100 / 2 ^ 51"
proof -
  have fa: "f64_of_int a = F64 False (of_int a)" and fb: "f64_of_int b = F64 False (of_int b)"
    using ab by (simp_all add: f64_of_int_exact)
  have f100: "f64_of_int 100 = F64 False 100" by (simp add: f64_of_int_exact)
  have b0: "(of_int b :: rat) \<noteq> 0" using ab by simp
  show ?thesis
  proof (cases "a = 0")
    case True
    have "f64_mul (f64_div (f64_of_int a) (f64_of_int b)) (f64_of_int 100) = F64 False 0"
      using b0 by (simp add: fb f100 True)
    then show ?thesis
      using True by simp
  next
    case False
    define \<rho> :: rat where "\<rho> = of_int a / of_int b"
    have a1: "(1 :: rat) \<le> of_int a" using False ab by simp
    have rho_le: "\<rho> \<le> 1" using ab by (simp add: \<rho>_def)
    have "(of_int b :: rat) < 2 ^ 53" using ab by simp
    then have "1 / 2 ^ 53 < 1 / (of_int b :: rat)"
      using ab by (intro divide_strict_left_mono) simp_all
    also have "\<dots> \<le> \<rho>" using a1 ab by (simp add: \<rho>_def divide_right_mono)
    finally have rho_ge: "1 / 2 ^ 53 < \<rho>" .
    have "pow2 (- 1022) \<le> 1 / 2 ^ 53" by (simp add: pow2_def)
    then have lo1: "pow2 (- 1022) \<le> \<rho>" using rho_ge by linarith
    have "(1 :: rat) < 2 ^ 1023" by simp
    then have hi1: "\<rho> < 2 ^ 1023" using rho_le by linarith
    obtain t where t: "f64_round False \<rho> = F64 False t" "\<bar>t - \<rho>\<bar> \<le> \<rho> / 2 ^ 53" "0 < t"
      using f64_round_error [OF lo1 hi1] by blast
    have t_le: "t \<le> \<rho> + \<rho> / 2 ^ 53" and t_ge: "\<rho> - \<rho> / 2 ^ 53 \<le> t"
      using t(2) by linarith+
    have "\<rho> / 2 ^ 53 \<le> 1 / 2 ^ 53" using rho_le by (simp add: divide_right_mono)
    then have t2: "t \<le> 2" using t_le rho_le by simp
    have "1 / 2 ^ 53 / 2 \<le> \<rho> - \<rho> / 2 ^ 53"
    proof -
      have "\<rho> - \<rho> / 2 ^ 53 = \<rho> * (1 - 1 / 2 ^ 53)" by (simp add: algebra_simps)
      moreover have "1 / 2 ^ 53 * (1 / 2) \<le> \<rho> * (1 - 1 / 2 ^ 53)"
        using rho_ge by (intro mult_mono) simp_all
      ultimately show ?thesis by simp
    qed
    then have t54: "1 / 2 ^ 54 \<le> t" using t_ge by simp
    have "pow2 (- 1022) \<le> 1 / 2 ^ 54 * 100" by (simp add: pow2_def)
    also have "\<dots> \<le> t * 100" using t54 by simp
    finally have lo2: "pow2 (- 1022) \<le> t * 100" .
    have "t * 100 \<le> 200" using t2 by simp
    also have "\<dots> < (2 ^ 1023 :: rat)" by simp
    finally have hi2: "t * 100 < 2 ^ 1023" .
    obtain q where q: "f64_round False (t * 100) = F64 False q"
      "\<bar>q - t * 100\<bar> \<le> t * 100 / 2 ^ 53"
      using f64_round_error [OF lo2 hi2] by blast
    have loss: "f64_mul (f64_div (f64_of_int a) (f64_of_int b)) (f64_of_int 100) = F64 False q"
      using b0 t(1) q(1) by (simp add: fa fb f100 \<rho>_def)
    have "\<bar>q - \<rho> * 100\<bar> \<le> \<rho> * 100 / 2 ^ 51"
      using t(2) q(2) rho_ge by (intro two_roundings [of t]) simp_all
    then show ?thesis using loss unfolding \<rho>_def by blast
  qed
qed

lemma PktLoss_bound:
  assumes "0 < sint (pktsSent s)" "0 \<le> sint (pktsRecv s)"
    "sint (pktsRecv s) \<le> sint (pktsSent s)" "sint (pktsSent s) < 2 ^ 53"
  shows "\<exists>q. PktLoss s = F64 False q
    \<and> \<bar>q - of_int (sint (pktsSent s) - sint (pktsRecv s)) / of_int (sint (pktsSent s)) * 100\<bar>
        \<le> of_int (sint (pktsSent s) - sint (pktsRecv s)) / of_int (sint (pktsSent s)) * 100
            / 2 ^ 51"
proof -
  have "sint (pktsSent s - pktsRecv s) = sint (pktsSent s) - sint (pktsRecv s)"
    using assms by (intro i64_sub_exact) simp_all
  then show ?thesis
    unfolding PktLoss_def using assms by (simp only:) (intro PktLoss_bound_aux, simp_all)
qed

lemma PktLoss_half:
  "pktsSent s = 4 \<Longrightarrow> pktsRecv s = 2 \<Longrightarrow> PktLoss s = F64 False 50"
  using f64_round_exact [of 1 "- 1" False]
  by (simp add: PktLoss_def f64_of_int_exact f64_round_numeral pow2_def)


lemma loss_cell: "pingsToRow s ! 2 = Sprintf_loss (PktLoss s)"
  by (simp add: pingsToRow_def)

text \<open>
  C3, amended.  With no packet sent (and none received) PktLoss does not panic:
  it divides the float64 zero by zero, returns NaN, and the row shows \<open>NaN%\<close>.
  With \<open>0 \<le> pktsRecv \<le> pktsSent\<close> and \<open>0 < pktsSent < 2 ^ 53\<close> the result is a
  finite float64 within a relative error of \<open>2 ^ - 51\<close> of
  \<open>(pktsSent - pktsRecv) / pktsSent * 100\<close>; with 4 sent and 2 received it is
  exactly 50, shown as \<open>50.0%\<close>.
\<close>

theorem packet_loss_value:
  "(pktsSent s = 0 \<and> pktsRecv s = 0 \<longrightarrow>
      PktLoss s = F64NaN \<and> pingsToRow s ! 2 = ''NaN%'')
   \<and> (0 < sint (pktsSent s) \<and> 0 \<le> sint (pktsRecv s)
        \<and> sint (pktsRecv s) \<le> sint (pktsSent s) \<and> sint (pktsSent s) < 2 ^ 53 \<longrightarrow>
      (\<exists>q. PktLoss s = F64 False q
         \<and> \<bar>q - of_int (sint (pktsSent s) - sint (pktsRecv s)) / of_int (sint (pktsSent s))
                  * 100\<bar>
             \<le> of_int (sint (pktsSent s) - sint (pktsRecv s)) / of_int (sint (pktsSent s))
                  * 100 / 2 ^ 51))
   \<and> (pktsSent s = 4 \<and> pktsRecv s = 2 \<longrightarrow>
      PktLoss s = F64 False 50 \<and> pingsToRow s ! 2 = ''50.0%'')"
proof (intro conjI impI)
  assume "pktsSent s = 0 \<and> pktsRecv s = 0"
  then show "PktLoss s = F64NaN" by (simp add: PktLoss_nan)
  then show "pingsToRow s ! 2 = ''NaN%''" by (simp add: loss_cell Sprintf_loss_nan)
next
  assume "0 < sint (pktsSent s) \<and> 0 \<le> sint (pktsRecv s)
        \<and> sint (pktsRecv s) \<le> sint (pktsSent s) \<and> sint (pktsSent s) < 2 ^ 53"
  then show "\<exists>q. PktLoss s = F64 False q
         \<and> \<bar>q - of_int (sint (pktsSent s) - sint (pktsRecv s)) / of_int (sint (pktsSent s))
                  * 100\<bar>
             \<le> of_int (sint (pktsSent s) - sint (pktsRecv s)) / of_int (sint (pktsSent s))
                  * 100 / 2 ^ 51"
    by (intro PktLoss_bound) simp_all
next
  assume "pktsSent s = 4 \<and> pktsRecv s = 2"
  then show "PktLoss s = F64 False 50" by (simp add: PktLoss_half)
  then show "pingsToRow s ! 2 = ''50.0%''" by (simp add: loss_cell Sprintf_loss_50)
qed

theorem packet_loss_value_witness:
  "(pktsSent (newPingStats ''a'' ''h'') = 0 \<and> pktsRecv (newPingStats ''a'' ''h'') = 0)
   \<and> PktLoss (newPingStats ''a'' ''h'') = F64NaN
   \<and> (let s = (newPingStats ''a'' ''h'')\<lparr>pktsSent := 4, pktsRecv := 2\<rparr>
      in (0 < sint (pktsSent s) \<and> 0 \<le> sint (pktsRecv s)
            \<and> sint (pktsRecv s) \<le> sint (pktsSent s) \<and> sint (pktsSent s) < 2 ^ 53)
         \<and> (pktsSent s = 4 \<and> pktsRecv s = 2)
         \<and> PktLoss s = F64 False 50 \<and> pingsToRow s ! 2 = ''50.0%''
         \<and> (\<exists>q. PktLoss s = F64 False q \<and> \<bar>q - 50\<bar> \<le> 50 / 2 ^ 51))"
proof -
  let ?fresh = "newPingStats ''a'' ''h''"
  let ?s = "?fresh\<lparr>pktsSent := 4, pktsRecv := 2\<rparr>"
  have h0: "pktsSent ?fresh = 0 \<and> pktsRecv ?fresh = 0" by (simp add: newPingStats_def)
  have h1: "0 < sint (pktsSent ?s) \<and> 0 \<le> sint (pktsRecv ?s)
      \<and> sint (pktsRecv ?s) \<le> sint (pktsSent ?s) \<and> sint (pktsSent ?s) < 2 ^ 53"
    by simp
  have h2: "pktsSent ?s = 4 \<and> pktsRecv ?s = 2" by simp
  have a: "PktLoss ?fresh = F64NaN"
    using h0 packet_loss_value [of ?fresh] by blast
  have b: "PktLoss ?s = F64 False 50 \<and> pingsToRow ?s ! 2 = ''50.0%''"
    using h2 packet_loss_value [of ?s] by blast
  have c: "\<exists>q. PktLoss ?s = F64 False q \<and> \<bar>q - 50\<bar> \<le> 50 / 2 ^ 51"
    using h1 packet_loss_value [of ?s] by simp
  show ?thesis
    unfolding Let_def using h0 h1 h2 a b c by blast
qed

theorem packet_loss_nan_counterexample:
  "PktLoss (newPingStats ''a'' ''h'') = F64NaN
   \<and> pingsToRows [newPingStats ''a'' ''h''] = [ [''a'', ''h'', ''NaN%'', ''0s'', ''0s''] ]"
proof -
  have "PktLoss (newPingStats ''a'' ''h'') = F64NaN"
    by (simp add: PktLoss_nan newPingStats_def)
  moreover have "Duration_Round 0 100000 = 0"
    by (simp add: Duration_Round_def i64_rem_def lessThanHalf_def signed_modulo_int_def)
  moreover have "Duration_String 0 = ''0s''"
    by (simp add: Duration_String_def)
  ultimately show ?thesis
    by (simp add: pingsToRows_def pingsToRow_def Sprintf_loss_nan RttAvg_def RttStdDev_def)
       (simp add: newPingStats_def)
qed

section \<open>The target list (readPingTargets) and start-up (main)\<close>

text \<open>
  The file system is what \<open>os.ReadFile\<close> answers for a path: the text of an error
  or the bytes of the file.
\<close>

type_synonym filesystem = "string \<Rightarrow> string + string"

text \<open>
  \<open>bufio.Scanner\<close> with its default split function \<open>ScanLines\<close> and its default
  buffer: \<open>Scanner_lines data\<close> are the tokens that the successive calls of
  \<open>Scan\<close> deliver before \<open>Scan\<close> returns false.  A line ends at a newline or at
  the end of the input, and loses one trailing carriage return.  The buffer
  grows to \<open>MaxScanTokenSize\<close> bytes at most: when it is full and holds no
  newline, \<open>Scan\<close> gives up with \<open>ErrTooLong\<close> and returns false (readPingTargets
  never looks at the error).
\<close>

definition MaxScanTokenSize :: nat where
  "MaxScanTokenSize = 64 * 1024"

definition dropCR :: "string \<Rightarrow> string" where
  "dropCR data = (if data \<noteq> [] \<and> last data = CHR 0x0D then butlast data else data)"

function Scanner_lines :: "string \<Rightarrow> string list" where
  "Scanner_lines data =
     (if data = [] then []
      else
        let line = takeWhile (\<lambda>c. c \<noteq> CHR 0x0A) data
        in if MaxScanTokenSize \<le> length line then []
           else dropCR line # Scanner_lines (drop (length line + 1) data))"
  by pat_completeness auto
termination
  by (relation "measure length") auto

declare Scanner_lines.simps [simp del]

text \<open>\<open>strings.Index\<close> and \<open>strings.Cut\<close>.\<close>

fun Index :: "string \<Rightarrow> string \<Rightarrow> nat option" where
  "Index [] sep = (if sep = [] then Some 0 else None)"
| "Index (c # s) sep =
     (if take (length sep) (c # s) = sep then Some 0 else map_option Suc (Index s sep))"

definition Cut :: "string \<Rightarrow> string \<Rightarrow> string \<times> string \<times> bool" where
  "Cut s sep =
     (case Index s sep of
        Some i \<Rightarrow> (take i s, drop (i + length sep) s, True)
      | None \<Rightarrow> (s, [], False))"

text \<open>
  The process ends in \<open>os.Exit\<close>: what it has written to standard output and to
  standard error, and its exit status.
\<close>

datatype exit = Exit (out: string) (err: string) (status: int)

text \<open>
  \<open>fmt.Println\<close> writes its operands to standard output, separated by a blank and
  followed by a newline.
\<close>

definition readPingTargets :: "filesystem \<Rightarrow> string \<Rightarrow> exit + pingStats list" where
  "readPingTargets fs path =
     (case fs path of
        Inl e \<Rightarrow> Inl (Exit (''Error reading config file:'' @ '' '' @ e @ [CHR 0x0A]) [] 1)
      | Inr fileBytes \<Rightarrow>
          Inr (map (\<lambda>line. case Cut line ''|'' of (name, addr, found) \<Rightarrow> newPingStats name addr)
                 (Scanner_lines fileBytes)))"

text \<open>
  The model of the user interface: the rows last given to the table, and the
  targets in their current order.
\<close>

record model =
  rows :: "Row list"
  pings :: "pingStats list"

text \<open>
  \<open>flag.Parse\<close> for a program that defines no flag, as \<open>main\<close> does; \<open>prog\<close> is
  the program's name, \<open>args\<close> are the command-line arguments after it.  An
  argument of two or more bytes that starts with \<open>-\<close> is taken as a flag unless it
  is \<open>--\<close>, which is dropped and ends the flags.  No flag is defined, so a flag
  ends the program: the message and the usage text go to standard error and the
  exit status is 2, or 0 for \<open>-h\<close> and \<open>-help\<close>.  Otherwise the result is the list
  of the remaining arguments.
\<close>

definition usage_text :: "string \<Rightarrow> string" where
  "usage_text prog = ''Usage of '' @ prog @ '':'' @ [CHR 0x0A]"

definition flag_Parse :: "string \<Rightarrow> string list \<Rightarrow> exit + string list" where
  "flag_Parse prog args =
     (case args of
        [] \<Rightarrow> Inr []
      | s # rest \<Rightarrow>
          if length s < 2 \<or> take 1 s \<noteq> ''-'' then Inr args
          else if s = ''--'' then Inr rest
          else
            let numMinuses = (if take 2 s = ''--'' then 2 else 1 :: nat);
                name = drop numMinuses s
            in if name = [] \<or> take 1 name = ''-'' \<or> take 1 name = ''='' then
                 Inl (Exit [] (''bad flag syntax: '' @ s @ [CHR 0x0A] @ usage_text prog) 2)
               else
                 let name = take 1 name @ takeWhile (\<lambda>c. c \<noteq> CHR ''='') (drop 1 name)
                 in if name = ''help'' \<or> name = ''h'' then Inl (Exit [] (usage_text prog) 0)
                    else
                      Inl (Exit []
                             (''flag provided but not defined: -'' @ name @ [CHR 0x0A]
                                @ usage_text prog) 2))"



text \<open>The lines of a text, with no bound on their length.\<close>

function file_lines :: "string \<Rightarrow> string list" where
  "file_lines data =
     (if data = [] then []
      else
        let line = takeWhile (\<lambda>c. c \<noteq> CHR 0x0A) data
        in line # file_lines (drop (length line + 1) data))"
  by pat_completeness auto
termination
  by (relation "measure length") auto

declare file_lines.simps [simp del]

lemma Scanner_lines_file_lines:
  "Scanner_lines data
     = map dropCR (takeWhile (\<lambda>l. length l < MaxScanTokenSize) (file_lines data))"
proof (induction data rule: file_lines.induct)
  case (1 data)
  show ?case
  proof (cases "data = []")
    case True
    then show ?thesis by (simp add: Scanner_lines.simps file_lines.simps)
  next
    case False
    define line where "line = takeWhile (\<lambda>c. c \<noteq> CHR 0x0A) data"
    have fl: "file_lines data = line # file_lines (drop (length line + 1) data)"
      using False by (subst file_lines.simps) (simp add: line_def Let_def)
    have ih: "Scanner_lines (drop (length line + 1) data)
        = map dropCR (takeWhile (\<lambda>l. length l < MaxScanTokenSize)
            (file_lines (drop (length line + 1) data)))"
      using "1.IH" [OF False line_def] .
    show ?thesis
      using False ih
      by (subst Scanner_lines.simps) (simp add: fl Let_def flip: line_def)
  qed
qed

lemma Index_None: "sep \<noteq> [] \<Longrightarrow> set sep \<inter> set s = {} \<Longrightarrow> Index s sep = None"
proof (induction s)
  case Nil
  then show ?case by simp
next
  case (Cons c s)
  have "take (length sep) (c # s) \<noteq> sep"
  proof
    assume "take (length sep) (c # s) = sep"
    then have "set sep \<subseteq> set (c # s)" by (metis set_take_subset)
    with Cons.prems show False by (cases sep) auto
  qed
  with Cons show ?case by auto
qed

lemma Cut_no_separator: "CHR ''|'' \<notin> set line \<Longrightarrow> Cut line ''|'' = (line, [], False)"
  by (simp add: Cut_def Index_None)

lemma set_dropCR: "set (dropCR l) \<subseteq> set l"
  by (auto simp: dropCR_def dest: in_set_butlastD)

text \<open>
  C8, amended.  Loading a readable target list never panics.  It yields one
  Target, in order, for each line of the file before the first line of 64 KiB
  (\<open>MaxScanTokenSize\<close>) or more, which ends the scan: that line and the lines
  after it yield no Target, and when every line is shorter there is one Target
  per line.  A line that contains no \<open>|\<close> yields the Target whose name is the
  line less one trailing carriage return, if it has one, and whose address is
  the empty string.
\<close>

theorem no_separator_gives_empty_address:
  assumes "fs path = Inr data"
  shows "\<exists>ts. readPingTargets fs path = Inr ts
           \<and> length ts = length (takeWhile (\<lambda>l. length l < MaxScanTokenSize) (file_lines data))
           \<and> ((\<forall>l \<in> set (file_lines data). length l < MaxScanTokenSize) \<longrightarrow>
                 length ts = length (file_lines data))
           \<and> (\<forall>i < length ts. CHR ''|'' \<notin> set (file_lines data ! i) \<longrightarrow>
                 ts ! i = newPingStats (dropCR (file_lines data ! i)) []
                 \<and> Name (ts ! i) = dropCR (file_lines data ! i)
                 \<and> Addr (ts ! i) = [])"
proof -
  let ?short = "takeWhile (\<lambda>l. length l < MaxScanTokenSize) (file_lines data)"
  let ?ts = "map (\<lambda>line. case Cut line ''|'' of (name, addr, found) \<Rightarrow> newPingStats name addr)
               (map dropCR ?short)"
  have r: "readPingTargets fs path = Inr ?ts"
    using assms by (simp add: readPingTargets_def Scanner_lines_file_lines)
  have all: "(\<forall>l \<in> set (file_lines data). length l < MaxScanTokenSize) \<longrightarrow>
      length ?ts = length (file_lines data)"
    by (auto simp: takeWhile_eq_all_conv [THEN iffD2])
  have "?ts ! i = newPingStats (dropCR (file_lines data ! i)) []"
    if "i < length ?short" "CHR ''|'' \<notin> set (file_lines data ! i)" for i
  proof -
    have nth: "?short ! i = file_lines data ! i"
      using that(1) by (rule takeWhile_nth)
    have "CHR ''|'' \<notin> set (dropCR (file_lines data ! i))"
      using that(2) set_dropCR by blast
    then show ?thesis
      using that(1) by (simp add: nth Cut_no_separator)
  qed
  then have P: "\<forall>i < length ?ts. CHR ''|'' \<notin> set (file_lines data ! i) \<longrightarrow>
                 ?ts ! i = newPingStats (dropCR (file_lines data ! i)) []
                 \<and> Name (?ts ! i) = dropCR (file_lines data ! i)
                 \<and> Addr (?ts ! i) = []"
    by (simp add: newPingStats_def)
  have len: "length ?ts = length ?short" by simp
  show ?thesis by (intro exI [of _ ?ts] conjI r len all P)
qed

lemma file_lines_example: "file_lines ''router'' = [''router'']"
  by (simp add: file_lines.simps)

theorem no_separator_gives_empty_address_witness:
  "(\<lambda>p. Inr ''router'' :: string + string) ''list.txt'' = Inr ''router''
   \<and> file_lines ''router'' = [''router'']
   \<and> length ''router'' < MaxScanTokenSize
   \<and> CHR ''|'' \<notin> set (file_lines ''router'' ! 0)
   \<and> readPingTargets (\<lambda>p. Inr ''router'') ''list.txt'' = Inr [newPingStats ''router'' []]"
proof -
  have h3: "CHR ''|'' \<notin> set (file_lines ''router'' ! 0)"
    by (simp add: file_lines_example)
  have sh: "length ''router'' < MaxScanTokenSize"
    by (simp add: MaxScanTokenSize_def)
  have "\<exists>ts. readPingTargets (\<lambda>p. Inr ''router'') ''list.txt'' = Inr ts
           \<and> length ts = length (takeWhile (\<lambda>l. length l < MaxScanTokenSize) (file_lines ''router''))
           \<and> ((\<forall>l \<in> set (file_lines ''router''). length l < MaxScanTokenSize) \<longrightarrow>
                 length ts = length (file_lines ''router''))
           \<and> (\<forall>i < length ts. CHR ''|'' \<notin> set (file_lines ''router'' ! i) \<longrightarrow>
                 ts ! i = newPingStats (dropCR (file_lines ''router'' ! i)) []
                 \<and> Name (ts ! i) = dropCR (file_lines ''router'' ! i)
                 \<and> Addr (ts ! i) = [])"
    by (rule no_separator_gives_empty_address [of "\<lambda>p. Inr ''router''" "''list.txt''" "''router''"])
       simp
  then obtain ts where ts: "readPingTargets (\<lambda>p. Inr ''router'') ''list.txt'' = Inr ts"
    "(\<forall>l \<in> set (file_lines ''router''). length l < MaxScanTokenSize) \<longrightarrow>
       length ts = length (file_lines ''router'')"
    "\<forall>i < length ts. CHR ''|'' \<notin> set (file_lines ''router'' ! i) \<longrightarrow>
       ts ! i = newPingStats (dropCR (file_lines ''router'' ! i)) []
       \<and> Name (ts ! i) = dropCR (file_lines ''router'' ! i) \<and> Addr (ts ! i) = []"
    by blast
  have "length ts = 1" using ts(2) sh by (simp add: file_lines_example)
  moreover have "ts ! 0 = newPingStats ''router'' []"
    using ts(3) h3 \<open>length ts = 1\<close> by (simp add: file_lines_example dropCR_def)
  ultimately have "ts = [newPingStats ''router'' []]"
    by (cases ts) auto
  then show ?thesis using h3 sh ts(1) by (simp add: file_lines_example)
qed

lemma takeWhile_replicate_all: "\<not> P a \<Longrightarrow> takeWhile (\<lambda>c. \<not> P c) (replicate n a) = replicate n a"
  by (induction n) auto

theorem long_line_counterexample:
  "CHR ''|'' \<notin> set (replicate 65536 CHR ''a'')
   \<and> file_lines (replicate 65536 CHR ''a'') = [replicate 65536 CHR ''a'']
   \<and> readPingTargets (\<lambda>p. Inr (replicate 65536 CHR ''a'')) ''list.txt'' = Inr []"
proof -
  let ?d = "replicate 65536 CHR ''a''"
  have tw: "takeWhile (\<lambda>c. c \<noteq> CHR 0x0A) ?d = ?d"
    using takeWhile_replicate_all [of "\<lambda>c. c = CHR 0x0A" "CHR ''a''" 65536] by simp
  have ne: "?d \<noteq> []" by simp
  have "Scanner_lines ?d = []"
    using ne by (subst Scanner_lines.simps) (simp add: tw MaxScanTokenSize_def Let_def)
  moreover have "file_lines ?d = [?d]"
    using ne by (subst file_lines.simps) (simp add: tw Let_def file_lines.simps [of "[]"])
  ultimately show ?thesis
    by (simp add: readPingTargets_def)
qed

lemma flag_Parse_no_flag:
  "args = [] \<or> length (hd args) < 2 \<or> take 1 (hd args) \<noteq> ''-'' \<Longrightarrow>
   flag_Parse prog args = Inr args"
  by (cases args) (auto simp: flag_Parse_def)





end
